theory Spec2Isabelle
  imports Complex_Main "HOL-Library.Multiset"
begin

section \<open>Disk scheduling simulator: the scheduling engine of \<^verbatim>\<open>disk.py\<close>\<close>

text \<open>
  The development embeds class \<^verbatim>\<open>DiskScheduler\<close> (lines 12-66 of \<^verbatim>\<open>disk.py\<close>) and the
  numeric part of the input validation and the dispatch of \<^verbatim>\<open>DiskSchedulerGUI\<close>
  (lines 305-312, 314-332 and 395-406). Python's unbounded integers are \<^typ>\<open>int\<close>.
  A Python float is the rational number it stands for, a \<^typ>\<open>rat\<close>; the two zeros are
  one value, and no infinity or NaN arises in this program.
  A method that mutates the object and may raise is a function from the object to the
  pair of the object as the call leaves it and the outcome: the returned value, or the
  exception. The \<^verbatim>\<open>ValueError\<close> of the validation is what the specification calls
  \<^verbatim>\<open>InvalidInputError\<close>.
\<close>

subsection \<open>Errors and the scheduler object\<close>

datatype py_error = ValueError string | ZeroDivisionError | OverflowError

type_synonym metrics = "int \<times> rat \<times> rat"

record scheduler =
  requests :: "int list"
  head :: int
  disk_size :: int
  seek_sequence :: "int list"
  total_seek :: int

text \<open>\<^verbatim>\<open>DiskScheduler.__init__\<close>: the three arguments are stored, the sequence starts
  empty and the total at zero.\<close>

definition DiskScheduler :: "int list \<Rightarrow> int \<Rightarrow> int \<Rightarrow> scheduler" where
  "DiskScheduler rs h d =
     \<lparr>requests = rs, head = h, disk_size = d, seek_sequence = [], total_seek = 0\<rparr>"

subsection \<open>Python's true division of integers\<close>

text \<open>
  \<^verbatim>\<open>a / b\<close> on two integers raises \<^verbatim>\<open>ZeroDivisionError\<close> when \<^verbatim>\<open>b\<close> is zero.
  Otherwise its value is the IEEE 754 double nearest to the exact quotient, a tie going
  to the double with the even significand, and \<^verbatim>\<open>OverflowError\<close> is raised when
  that rounding reaches \<open>2^1024\<close>. A double is a multiple of \<open>2^(e - 52)\<close> where
  \<open>2^e\<close> is the power of two at or below its magnitude, and of \<open>2^(-1074)\<close> in the
  subnormal range.
\<close>

text \<open>The number of binary digits of a positive integer (\<^verbatim>\<open>int.bit_length\<close>).\<close>

function bit_length :: "int \<Rightarrow> nat" where
  "bit_length n = (if n \<le> 0 then 0 else Suc (bit_length (n div 2)))"
  by pat_completeness auto
termination
  by (relation "measure nat") auto

definition pow2 :: "int \<Rightarrow> rat" where
  "pow2 e = (if 0 \<le> e then 2 ^ nat e else 1 / 2 ^ nat (- e))"

text \<open>For \<open>x > 0\<close>, the integer \<open>e\<close> with \<open>2^e \<le> x < 2^(e + 1)\<close>.\<close>

definition binary_exponent :: "rat \<Rightarrow> int" where
  "binary_exponent x =
     (if 1 \<le> x then int (bit_length \<lfloor>x\<rfloor>) - 1
      else - int (bit_length (\<lceil>1 / x\<rceil> - 1)))"

definition round_half_even :: "rat \<Rightarrow> int" where
  "round_half_even x =
     (let f = \<lfloor>x\<rfloor>; r = x - of_int f
      in if r < 1 / 2 then f
         else if 1 / 2 < r then f + 1
         else if even f then f else f + 1)"

definition nearest_double :: "rat \<Rightarrow> rat" where
  "nearest_double x =
     (if x = 0 then 0
      else (let q = pow2 (max (binary_exponent \<bar>x\<bar> - 52) (- 1074))
            in sgn x * (of_int (round_half_even (\<bar>x\<bar> / q)) * q)))"

definition truediv :: "int \<Rightarrow> int \<Rightarrow> py_error + rat" where
  "truediv a b =
     (if b = 0 then Inl ZeroDivisionError
      else (let r = nearest_double (of_int a / of_int b)
            in if 2 ^ 1024 \<le> \<bar>r\<bar> then Inl OverflowError else Inr r))"

subsection \<open>Metrics\<close>

text \<open>
  \<^verbatim>\<open>calculate_metrics\<close>: the total is the sum over \<^verbatim>\<open>i in range(1, len(seek_sequence))\<close>
  of \<^verbatim>\<open>abs(seek_sequence[i] - seek_sequence[i-1])\<close>; it is stored in the object, and
  then the average and the throughput are computed. Each of the two quotients is
  guarded by a conditional expression whose other branch is the integer 0. A division
  that raises leaves the object with the new total and ends the call.
\<close>

definition calculate_metrics :: "scheduler \<Rightarrow> scheduler \<times> (py_error + metrics)" where
  "calculate_metrics s =
     (let s' = s\<lparr>total_seek :=
                 (\<Sum>i\<leftarrow>[1..<length (seek_sequence s)].
                     \<bar>seek_sequence s ! i - seek_sequence s ! (i - 1)\<bar>)\<rparr>
      in (s',
          case (if requests s' \<noteq> []
                then truediv (total_seek s') (int (length (requests s')))
                else Inr 0) of
            Inl e \<Rightarrow> Inl e
          | Inr avg_seek \<Rightarrow>
              (case (if total_seek s' > 0
                     then truediv (int (length (requests s'))) (total_seek s' + 1)
                     else Inr 0) of
                 Inl e \<Rightarrow> Inl e
               | Inr throughput \<Rightarrow> Inr (total_seek s', avg_seek, throughput))))"

text \<open>The sum expression of \<^verbatim>\<open>calculate_metrics\<close>, standing alone.\<close>

definition index_sum :: "int list \<Rightarrow> int" where
  "index_sum xs = (\<Sum>i\<leftarrow>[1..<length xs]. \<bar>xs ! i - xs ! (i - 1)\<bar>)"

subsection \<open>The four policies\<close>

text \<open>\<^verbatim>\<open>fcfs\<close>: \<^verbatim>\<open>seek_sequence = [head] + requests\<close>.\<close>

definition fcfs :: "scheduler \<Rightarrow> scheduler \<times> (py_error + metrics)" where
  "fcfs s = calculate_metrics (s\<lparr>seek_sequence := [head s] @ requests s\<rparr>)"

text \<open>
  Python's \<^verbatim>\<open>min(xs, key=f)\<close> on a non-empty list: it walks the list from the left and
  replaces the element held so far only when the key of the next one is strictly
  smaller, so the first minimal element wins.
\<close>

fun min_from :: "('a \<Rightarrow> int) \<Rightarrow> 'a \<Rightarrow> 'a list \<Rightarrow> 'a" where
  "min_from f best [] = best"
| "min_from f best (x # xs) = min_from f (if f x < f best then x else best) xs"

text \<open>
  The loop of \<^verbatim>\<open>sstf\<close>, on the pair of the sequence built so far and the list
  \<^verbatim>\<open>remaining\<close>. The guard \<^verbatim>\<open>while remaining\<close> keeps \<^verbatim>\<open>min\<close> away from the empty
  list; \<^verbatim>\<open>seek_sequence[-1]\<close> is the last element; \<^verbatim>\<open>remaining.remove(closest)\<close>
  deletes the first element equal to \<^verbatim>\<open>closest\<close>, which is in the list.
\<close>

function sstf_loop :: "int list \<Rightarrow> int list \<Rightarrow> int list" where
  "sstf_loop seq remaining =
     (case remaining of
        [] \<Rightarrow> seq
      | r # rs \<Rightarrow>
          (let closest = min_from (\<lambda>x. \<bar>x - last seq\<bar>) r rs
           in sstf_loop (seq @ [closest]) (remove1 closest remaining)))"
  by pat_completeness auto
termination
proof (relation "measure (\<lambda>(seq, remaining). length remaining)")
  show "wf (measure (\<lambda>(seq, remaining). length remaining))"
    by simp
next
  fix seq remaining :: "int list" and r rs closest
  assume rem: "remaining = r # rs"
    and cl: "closest = min_from (\<lambda>x. \<bar>x - last seq\<bar>) r rs"
  have mem: "min_from f b xs \<in> set (b # xs)" for f :: "int \<Rightarrow> int" and b xs
    by (induction xs arbitrary: b) auto
  have "closest \<in> set remaining"
    using mem [of "\<lambda>x. \<bar>x - last seq\<bar>" r rs] rem cl by simp
  then have "length (remove1 closest remaining) < length remaining"
    by (simp add: length_remove1) (cases remaining; simp)
  then show "((seq @ [closest], remove1 closest remaining), (seq, remaining))
      \<in> measure (\<lambda>(seq, remaining). length remaining)"
    by simp
qed

text \<open>\<^verbatim>\<open>sstf\<close>: the loop runs on \<^verbatim>\<open>[head]\<close> and a copy of the requests.\<close>

definition sstf :: "scheduler \<Rightarrow> scheduler \<times> (py_error + metrics)" where
  "sstf s = calculate_metrics (s\<lparr>seek_sequence := sstf_loop [head s] (requests s)\<rparr>)"

text \<open>
  \<^verbatim>\<open>scan\<close>: \<^verbatim>\<open>sorted\<close> is \<^const>\<open>sort\<close>, a comprehension with a condition is
  \<^const>\<open>filter\<close>, \<^verbatim>\<open>left[::-1]\<close> is \<^const>\<open>rev\<close>, \<^verbatim>\<open>right[-1]\<close> and \<^verbatim>\<open>left[0]\<close> are read
  only behind the test that the list is not empty. The direction is compared with
  \<^verbatim>\<open>"right"\<close> and with nothing else.
\<close>

definition scan :: "scheduler \<Rightarrow> string \<Rightarrow> scheduler \<times> (py_error + metrics)" where
  "scan s direction =
     (let sorted_requests = sort (requests s)
      in if direction = ''right''
         then
           (let left = filter (\<lambda>x. x < head s) sorted_requests;
                right = filter (\<lambda>x. x \<ge> head s) sorted_requests
            in calculate_metrics (s\<lparr>seek_sequence :=
                 [head s] @ (right
                   @ (if right \<noteq> [] \<and> last right \<noteq> disk_size s - 1
                      then [disk_size s - 1] else [])
                   @ rev left)\<rparr>))
         else
           (let left = filter (\<lambda>x. x \<le> head s) sorted_requests;
                right = filter (\<lambda>x. x > head s) sorted_requests
            in calculate_metrics (s\<lparr>seek_sequence :=
                 [head s] @ (rev left
                   @ (if left \<noteq> [] \<and> hd left \<noteq> 0 then [0] else [])
                   @ right)\<rparr>)))"

text \<open>\<^verbatim>\<open>cscan\<close>: the visit to 0 is appended without a condition, the left part as sorted.\<close>

definition cscan :: "scheduler \<Rightarrow> scheduler \<times> (py_error + metrics)" where
  "cscan s =
     (let sorted_requests = sort (requests s);
          right = filter (\<lambda>x. x \<ge> head s) sorted_requests;
          left = filter (\<lambda>x. x < head s) sorted_requests
      in calculate_metrics (s\<lparr>seek_sequence :=
           [head s] @ (right
             @ (if right \<noteq> [] \<and> last right \<noteq> disk_size s - 1
                then [disk_size s - 1] else [])
             @ [0] @ left)\<rparr>))"

subsection \<open>Validation and dispatch\<close>

text \<open>
  \<^verbatim>\<open>_validate_inputs\<close>, lines 305-312, on the values that lines 291-303 have read from
  the entry fields and converted with \<^verbatim>\<open>int\<close>. The three checks are made in this
  order and each raises \<^verbatim>\<open>ValueError\<close> with its own message.
\<close>

definition validate_inputs :: "int \<Rightarrow> int \<Rightarrow> int list \<Rightarrow> py_error + (int \<times> int \<times> int list)" where
  "validate_inputs d h rs =
     (if rs = [] then Inl (ValueError ''Request queue cannot be empty.'')
      else if d \<le> 0 then Inl (ValueError ''Disk size must be positive.'')
      else if \<not> (0 \<le> h \<and> h < d) \<or> list_ex (\<lambda>r. r < 0 \<or> r \<ge> d) rs
        then Inl (ValueError
          ''Head and requests must be within disk size (0 to disk_size-1).'')
      else Inr (d, h, rs))"

text \<open>
  The conditional expression of \<^verbatim>\<open>_run_algorithm\<close> that picks the method (it stands
  twice in the source, once per branch): \<^verbatim>\<open>FCFS\<close>, \<^verbatim>\<open>SSTF\<close>, \<^verbatim>\<open>SCAN\<close> with the
  direction of the combo box, and \<^verbatim>\<open>cscan\<close> for every other name.
\<close>

definition run_policy :: "string \<Rightarrow> string \<Rightarrow> scheduler \<Rightarrow> scheduler \<times> (py_error + metrics)" where
  "run_policy a direction s =
     (if a = ''FCFS'' then fcfs s
      else if a = ''SSTF'' then sstf s
      else if a = ''SCAN'' then scan s direction
      else cscan s)"

type_synonym results = "string \<rightharpoonup> (int list \<times> metrics)"

text \<open>The loop of the \<^verbatim>\<open>Compare All\<close> branch: a fresh scheduler for each name.\<close>

fun compare_all :: "string list \<Rightarrow> string \<Rightarrow> int list \<Rightarrow> int \<Rightarrow> int \<Rightarrow> results \<Rightarrow> py_error + results" where
  "compare_all [] direction rs h d res = Inr res"
| "compare_all (a # as) direction rs h d res =
     (case run_policy a direction (DiskScheduler rs h d) of
        (s', Inl e) \<Rightarrow> Inl e
      | (s', Inr m) \<Rightarrow> compare_all as direction rs h d (res(a \<mapsto> (seek_sequence s', m))))"

definition run_algorithm :: "string \<Rightarrow> string \<Rightarrow> int list \<Rightarrow> int \<Rightarrow> int \<Rightarrow> py_error + results" where
  "run_algorithm algo direction rs h d =
     (if algo = ''Compare All''
      then compare_all [''FCFS'', ''SSTF'', ''SCAN'', ''C-SCAN''] direction rs h d Map.empty
      else (case run_policy algo direction (DiskScheduler rs h d) of
              (s', Inl e) \<Rightarrow> Inl e
            | (s', Inr m) \<Rightarrow> Inr (Map.empty(algo \<mapsto> (seek_sequence s', m)))))"

text \<open>
  \<^verbatim>\<open>run_simulation\<close>, lines 395-406: validation first, the policies only on what it
  returns. An exception of either step ends the run: the handlers of lines 401-406
  show its message and no result is displayed. The display of the results (lines
  398-399) belongs to the window and is left out: the value of the model is what
  \<^verbatim>\<open>_run_algorithm\<close> hands to it.
\<close>

definition run_simulation :: "string \<Rightarrow> string \<Rightarrow> int \<Rightarrow> int \<Rightarrow> int list \<Rightarrow> py_error + results" where
  "run_simulation algo direction d h rs =
     (case validate_inputs d h rs of
        Inl e \<Rightarrow> Inl e
      | Inr (d', h', rs') \<Rightarrow> run_algorithm algo direction rs' h' d')"

subsection \<open>What the specification says, as functions of its own\<close>

text \<open>
  The total seek distance in the specification's words: the sum of
  \<open>|sequence[i] - sequence[i-1]|\<close> over the consecutive pairs of the sequence.
\<close>

fun seek_distance :: "int list \<Rightarrow> int" where
  "seek_distance (x # y # zs) = \<bar>y - x\<bar> + seek_distance (y # zs)"
| "seek_distance _ = 0"

text \<open>
  The greedy rule of the specification: among the remaining requests take the one at
  the least distance from the current position, on a tie the first such element in
  the order of the remaining list; remove that element and go on from it until
  nothing remains.
\<close>

definition nearest_index :: "int \<Rightarrow> int list \<Rightarrow> nat" where
  "nearest_index pos rem =
     length (takeWhile (\<lambda>x. \<bar>x - pos\<bar> \<noteq> Min ((\<lambda>y. \<bar>y - pos\<bar>) ` set rem)) rem)"

function greedy_order :: "int \<Rightarrow> int list \<Rightarrow> int list" where
  "greedy_order pos rem =
     (if rem = [] then []
      else (let i = nearest_index pos rem; c = rem ! i
            in c # greedy_order c (take i rem @ drop (Suc i) rem)))"
  by pat_completeness auto
termination
proof (relation "measure (\<lambda>(pos, rem). length rem)")
  show "wf (measure (\<lambda>(pos, rem). length rem))"
    by simp
next
  fix pos :: int and rem :: "int list" and i c
  assume ne: "rem \<noteq> []" and i: "i = nearest_index pos rem"
  let ?m = "Min ((\<lambda>y. \<bar>y - pos\<bar>) ` set rem)"
  have "?m \<in> (\<lambda>y. \<bar>y - pos\<bar>) ` set rem"
    using ne by (intro Min_in) auto
  then obtain x where "x \<in> set rem" and "\<bar>x - pos\<bar> = ?m"
    by auto
  then have "takeWhile (\<lambda>x. \<bar>x - pos\<bar> \<noteq> ?m) rem \<noteq> rem"
    by auto
  then have "i < length rem"
    unfolding i nearest_index_def
    using length_takeWhile_le [of "\<lambda>x. \<bar>x - pos\<bar> \<noteq> ?m" rem]
    by (metis le_neq_implies_less takeWhile_eq_take take_all_iff order_refl)
  then show "((c, take i rem @ drop (Suc i) rem), (pos, rem)) \<in> measure (\<lambda>(pos, rem). length rem)"
    by auto
qed

text \<open>
  The orders of SCAN and C-SCAN in the specification's words: the requests are split
  by comparison with the head, each part is put in ascending or descending order, and
  a boundary cylinder is visited after the first part under the stated condition on
  that part's maximum or minimum.
\<close>

definition scan_right_order :: "int \<Rightarrow> int \<Rightarrow> int list \<Rightarrow> int list" where
  "scan_right_order h d rs =
     (let right = filter (\<lambda>x. h \<le> x) rs; left = filter (\<lambda>x. x < h) rs
      in [h] @ sort right
           @ (if right \<noteq> [] \<and> Max (set right) \<noteq> d - 1 then [d - 1] else [])
           @ rev (sort left))"

definition scan_left_order :: "int \<Rightarrow> int \<Rightarrow> int list \<Rightarrow> int list" where
  "scan_left_order h d rs =
     (let left = filter (\<lambda>x. x \<le> h) rs; right = filter (\<lambda>x. h < x) rs
      in [h] @ rev (sort left)
           @ (if left \<noteq> [] \<and> Min (set left) \<noteq> 0 then [0] else [])
           @ sort right)"

definition cscan_order :: "int \<Rightarrow> int \<Rightarrow> int list \<Rightarrow> int list" where
  "cscan_order h d rs =
     (let right = filter (\<lambda>x. h \<le> x) rs; left = filter (\<lambda>x. x < h) rs
      in [h] @ sort right
           @ (if right \<noteq> [] \<and> Max (set right) \<noteq> d - 1 then [d - 1] else [])
           @ [0] @ sort left)"

text \<open>
  The order each policy is specified to produce, by the name and the direction that
  the dispatch reads: FCFS keeps the caller's order, SSTF follows the greedy rule.
\<close>

definition policy_order :: "string \<Rightarrow> string \<Rightarrow> int \<Rightarrow> int \<Rightarrow> int list \<Rightarrow> int list" where
  "policy_order a direction h d rs =
     (if a = ''FCFS'' then h # rs
      else if a = ''SSTF'' then h # greedy_order h rs
      else if a = ''SCAN''
        then (if direction = ''right'' then scan_right_order h d rs else scan_left_order h d rs)
      else cscan_order h d rs)"

declare greedy_order.simps [simp del]
declare sstf_loop.simps [simp del]
declare bit_length.simps [simp del]

section \<open>True division: the rounding stays within half a unit in the last place\<close>

lemma pow2_pos: "0 < pow2 e"
  by (simp add: pow2_def)

lemma pow2_nat: "pow2 (int n) = 2 ^ n"
  by (simp add: pow2_def)

lemma pow2_neg_nat: "pow2 (- int n) = 1 / 2 ^ n"
  by (cases "n = 0") (simp_all add: pow2_def)

lemma bit_length_bounds:
  "0 < n \<Longrightarrow> 2 ^ (bit_length n - 1) \<le> n \<and> n < 2 ^ bit_length n"
proof (induction n rule: bit_length.induct)
  case (1 n)
  have bl: "bit_length n = Suc (bit_length (n div 2))"
    using "1.prems" by (subst bit_length.simps) simp
  have split: "n = 2 * (n div 2) + n mod 2" and m0: "0 \<le> n mod 2" and m2: "n mod 2 < 2"
    by simp_all
  show ?case
  proof (cases "n div 2 \<le> 0")
    case True
    then have "n = 1"
      using "1.prems" split m0 m2 by linarith
    then show ?thesis
      by (simp add: bit_length.simps)
  next
    case False
    then have pos: "0 < n div 2"
      by simp
    define k where "k = bit_length (n div 2)"
    define p :: int where "p = 2 ^ (k - 1)"
    have IH: "p \<le> n div 2 \<and> n div 2 < 2 ^ k"
      unfolding p_def k_def using "1.IH" "1.prems" pos by simp
    have nz: "k \<noteq> 0"
      unfolding k_def using pos by (subst bit_length.simps) simp
    then have pk: "(2::int) ^ k = 2 * p"
      unfolding p_def by (cases k) simp_all
    have "2 * p \<le> n \<and> n < 2 * (2 * p)"
      using IH split m0 m2 unfolding pk by linarith
    then show ?thesis
      unfolding bl by (simp add: k_def [symmetric] pk)
  qed
qed

lemma binary_exponent_bounds:
  assumes "0 < x"
  shows "pow2 (binary_exponent x) \<le> x" and "x < pow2 (binary_exponent x + 1)"
proof -
  have "pow2 (binary_exponent x) \<le> x \<and> x < pow2 (binary_exponent x + 1)"
  proof (cases "1 \<le> x")
    case True
    let ?n = "\<lfloor>x\<rfloor>"
    have pos: "0 < ?n"
      using True by simp
    have k: "bit_length ?n \<noteq> 0"
      using pos by (subst bit_length.simps) simp
    have e: "binary_exponent x = int (bit_length ?n - 1)"
      using True k by (simp add: binary_exponent_def)
    have e1: "binary_exponent x + 1 = int (bit_length ?n)"
      using e k by simp
    have lo: "(2::int) ^ (bit_length ?n - 1) \<le> ?n" and hi: "?n < 2 ^ bit_length ?n"
      using bit_length_bounds [OF pos] by simp_all
    have "of_int ((2::int) ^ (bit_length ?n - 1)) \<le> (of_int ?n :: rat)"
      using lo by (simp only: of_int_le_iff)
    also have "\<dots> \<le> x"
      by simp
    finally have 1: "pow2 (binary_exponent x) \<le> x"
      unfolding e pow2_nat by simp
    have "?n + 1 \<le> 2 ^ bit_length ?n"
      using hi by simp
    then have "(of_int (?n + 1) :: rat) \<le> of_int (2 ^ bit_length ?n)"
      by (simp only: of_int_le_iff)
    moreover have "x < of_int (?n + 1)"
      by linarith
    ultimately have 2: "x < pow2 (binary_exponent x + 1)"
      unfolding e1 pow2_nat by simp
    show ?thesis
      using 1 2 by simp
  next
    case False
    let ?y = "1 / x"
    let ?m = "\<lceil>?y\<rceil> - 1"
    have y: "1 < ?y"
      using False assms by simp
    then have pos: "0 < ?m"
      by simp
    have k: "bit_length ?m \<noteq> 0"
      using pos by (subst bit_length.simps) simp
    have e: "binary_exponent x = - int (bit_length ?m)"
      using False by (simp add: binary_exponent_def)
    have e1: "binary_exponent x + 1 = - int (bit_length ?m - 1)"
      using e k by simp
    have lo: "(2::int) ^ (bit_length ?m - 1) \<le> ?m" and hi: "?m < 2 ^ bit_length ?m"
      using bit_length_bounds [OF pos] by simp_all
    have "\<lceil>?y\<rceil> \<le> 2 ^ bit_length ?m"
      using hi by simp
    then have "?y \<le> of_int (2 ^ bit_length ?m)"
      by (simp only: ceiling_le_iff)
    then have "1 / x \<le> 2 ^ bit_length ?m"
      by simp
    then have 1: "pow2 (binary_exponent x) \<le> x"
      unfolding e pow2_neg_nat using assms
      by (simp add: field_simps)
    have "2 ^ (bit_length ?m - 1) < \<lceil>?y\<rceil>"
      using lo by simp
    then have "of_int (2 ^ (bit_length ?m - 1)) < ?y"
      by (simp only: less_ceiling_iff)
    then have "2 ^ (bit_length ?m - 1) < 1 / x"
      by simp
    then have 2: "x < pow2 (binary_exponent x + 1)"
      unfolding e1 pow2_neg_nat using assms
      by (simp add: field_simps)
    show ?thesis
      using 1 2 by simp
  qed
  then show "pow2 (binary_exponent x) \<le> x" and "x < pow2 (binary_exponent x + 1)"
    by simp_all
qed

lemma round_half_even_error: "\<bar>of_int (round_half_even x) - x\<bar> \<le> 1 / 2"
proof -
  have "of_int \<lfloor>x\<rfloor> \<le> x" and "x < of_int \<lfloor>x\<rfloor> + 1"
    by linarith+
  then show ?thesis
    unfolding round_half_even_def Let_def by (auto simp: abs_le_iff)
qed

lemma round_half_even_nonneg: "0 \<le> x \<Longrightarrow> 0 \<le> round_half_even x"
  unfolding round_half_even_def Let_def by (auto simp: add_nonneg_nonneg)

lemma pow2_powi: "pow2 e = 2 powi e"
proof (cases "0 \<le> e")
  case True
  then show ?thesis
    by (simp add: pow2_def power_int_def)
next
  case False
  then show ?thesis
    by (simp add: pow2_def power_int_def power_one_over inverse_eq_divide)
qed

lemma pow2_le: "a \<le> b \<Longrightarrow> pow2 a \<le> pow2 b"
  by (simp add: pow2_powi power_int_increasing)

lemma pow2_diff: "pow2 (a - b) = pow2 a / pow2 b"
  by (simp add: pow2_powi power_int_diff)

lemma nearest_double_error:
  "\<bar>nearest_double x - x\<bar> \<le> pow2 (max (binary_exponent \<bar>x\<bar> - 52) (- 1074)) / 2"
proof (cases "x = 0")
  case True
  then show ?thesis
    using pow2_pos [of "max (binary_exponent \<bar>x\<bar> - 52) (- 1074)"]
    by (simp add: nearest_double_def)
next
  case False
  define q where "q = pow2 (max (binary_exponent \<bar>x\<bar> - 52) (- 1074))"
  define r where "r = (of_int (round_half_even (\<bar>x\<bar> / q)) :: rat)"
  have q: "0 < q"
    unfolding q_def by (rule pow2_pos)
  have nd: "nearest_double x = sgn x * (r * q)"
    using False by (simp add: nearest_double_def q_def r_def Let_def)
  have x: "x = sgn x * ((\<bar>x\<bar> / q) * q)"
    using q by (simp add: sgn_mult_abs)
  have "nearest_double x - x = sgn x * ((r - \<bar>x\<bar> / q) * q)"
    unfolding nd by (subst (2) x) (simp only: algebra_simps)
  then have "\<bar>nearest_double x - x\<bar> = \<bar>r - \<bar>x\<bar> / q\<bar> * q"
    using False q by (simp add: abs_mult abs_sgn_eq)
  also have "\<dots> \<le> (1 / 2) * q"
    using round_half_even_error [of "\<bar>x\<bar> / q"] q
    unfolding r_def by (intro mult_right_mono) simp_all
  finally show ?thesis
    unfolding q_def by simp
qed

lemma nearest_double_in_range:
  assumes "\<bar>x\<bar> < 2 ^ 1023"
  shows "\<bar>nearest_double x\<bar> < 2 ^ 1024"
proof (cases "x = 0")
  case True
  then show ?thesis
    by (simp add: nearest_double_def)
next
  case False
  then have pos: "0 < \<bar>x\<bar>"
    by simp
  define e where "e = binary_exponent \<bar>x\<bar>"
  have "pow2 (max (e - 52) (- 1074)) \<le> max (pow2 e) 1"
  proof (cases "e - 52 \<le> - 1074")
    case True
    then have "pow2 (max (e - 52) (- 1074)) = pow2 (- 1074)"
      by (simp add: max_def)
    also have "\<dots> \<le> pow2 0"
      by (rule pow2_le) simp
    finally have "pow2 (max (e - 52) (- 1074)) \<le> 1"
      by (simp add: pow2_def)
    then show ?thesis
      by simp
  next
    case False
    then have "pow2 (max (e - 52) (- 1074)) = pow2 (e - 52)"
      by (simp add: max_def)
    also have "\<dots> \<le> pow2 e"
      by (rule pow2_le) simp
    finally show ?thesis
      by simp
  qed
  moreover have "pow2 e \<le> \<bar>x\<bar>"
    unfolding e_def by (rule binary_exponent_bounds(1) [OF pos])
  ultimately have "pow2 (max (e - 52) (- 1074)) / 2 \<le> max \<bar>x\<bar> 1 / 2"
    by (simp add: max_def split: if_splits)
  then have "\<bar>nearest_double x - x\<bar> \<le> max \<bar>x\<bar> 1 / 2"
    using nearest_double_error [of x] unfolding e_def by linarith
  then have "\<bar>nearest_double x\<bar> \<le> \<bar>x\<bar> + max \<bar>x\<bar> 1 / 2"
    by linarith
  also have "\<dots> < 2 ^ 1023 + 2 ^ 1023"
    using assms by (simp add: max_def)
  finally show ?thesis
    by simp
qed

lemma nearest_double_relative_error:
  assumes "pow2 (- 1022) \<le> \<bar>x\<bar>"
  shows "\<bar>nearest_double x - x\<bar> \<le> \<bar>x\<bar> / 2 ^ 53"
proof -
  have pos: "0 < \<bar>x\<bar>"
    using assms pow2_pos [of "- 1022"] by linarith
  define e where "e = binary_exponent \<bar>x\<bar>"
  have lo: "pow2 e \<le> \<bar>x\<bar>" and hi: "\<bar>x\<bar> < pow2 (e + 1)"
    unfolding e_def by (rule binary_exponent_bounds [OF pos])+
  have "- 1022 < e + 1"
  proof (rule ccontr)
    assume "\<not> - 1022 < e + 1"
    then have "pow2 (e + 1) \<le> pow2 (- 1022)"
      by (intro pow2_le) simp
    then show False
      using hi assms by linarith
  qed
  then have "max (e - 52) (- 1074) = e - 52"
    by simp
  then have "\<bar>nearest_double x - x\<bar> \<le> pow2 (e - 52) / 2"
    using nearest_double_error [of x] unfolding e_def by simp
  also have "pow2 (e - 52) = pow2 e / 2 ^ 52"
    by (simp add: pow2_diff) (simp add: pow2_def)
  also have "pow2 e / 2 ^ 52 / 2 \<le> \<bar>x\<bar> / 2 ^ 52 / 2"
    using lo by (simp add: divide_right_mono)
  finally show ?thesis
    by simp
qed

lemma truediv_cases:
  "b \<noteq> 0 \<Longrightarrow> truediv a b = Inl OverflowError
      \<or> truediv a b = Inr (nearest_double (of_int a / of_int b))"
  by (simp add: truediv_def Let_def)

lemma truediv_in_range:
  "b \<noteq> 0 \<Longrightarrow> \<bar>of_int a / of_int b :: rat\<bar> < 2 ^ 1023
     \<Longrightarrow> truediv a b = Inr (nearest_double (of_int a / of_int b))"
  using nearest_double_in_range [of "of_int a / of_int b"]
  by (simp add: truediv_def Let_def)

lemma truediv_zero: "b \<noteq> 0 \<Longrightarrow> truediv 0 b = Inr 0"
  by (simp add: truediv_def nearest_double_def)


lemma round_half_even_ge: "of_int n \<le> x \<Longrightarrow> n \<le> round_half_even x"
proof -
  assume "of_int n \<le> x"
  then have "n \<le> \<lfloor>x\<rfloor>"
    by (simp add: le_floor_iff)
  then show ?thesis
    unfolding round_half_even_def Let_def by auto
qed

text \<open>At and above \<open>2^1024\<close> the rounding cannot come back into the range.\<close>

lemma nearest_double_overflow:
  assumes "2 ^ 1024 \<le> \<bar>x\<bar>"
  shows "2 ^ 1024 \<le> \<bar>nearest_double x\<bar>"
proof -
  have "(0::rat) < 2 ^ 1024"
    by (rule zero_less_power) simp
  then have pos: "0 < \<bar>x\<bar>"
    using assms by (rule less_le_trans)
  then have nz: "x \<noteq> 0"
    by simp
  define e where "e = binary_exponent \<bar>x\<bar>"
  have lo: "pow2 e \<le> \<bar>x\<bar>" and hi: "\<bar>x\<bar> < pow2 (e + 1)"
    unfolding e_def by (rule binary_exponent_bounds [OF pos])+
  have e: "1024 \<le> e"
  proof (rule ccontr)
    assume "\<not> 1024 \<le> e"
    then have "pow2 (e + 1) \<le> pow2 1024"
      by (intro pow2_le) simp
    then show False
      using hi assms by (simp add: pow2_def)
  qed
  define q where "q = pow2 (e - 52)"
  have q: "0 < q"
    unfolding q_def by (rule pow2_pos)
  have mx: "max (e - 52) (- 1074) = e - 52"
    using e by simp
  have pe: "pow2 e = 2 ^ 52 * q"
    unfolding q_def by (simp add: pow2_diff) (simp add: pow2_def)
  have "of_int (2 ^ 52) \<le> \<bar>x\<bar> / q"
    using lo q unfolding pe by (simp add: pos_le_divide_eq)
  then have "2 ^ 52 \<le> round_half_even (\<bar>x\<bar> / q)"
    by (rule round_half_even_ge)
  then have "(of_int (2 ^ 52) :: rat) \<le> of_int (round_half_even (\<bar>x\<bar> / q))"
    by (simp only: of_int_le_iff)
  then have "2 ^ 52 * q \<le> of_int (round_half_even (\<bar>x\<bar> / q)) * q"
    using q by (intro mult_right_mono) simp_all
  moreover have "\<bar>nearest_double x\<bar> = \<bar>of_int (round_half_even (\<bar>x\<bar> / q)) * q\<bar>"
    using nz by (simp add: nearest_double_def e_def [symmetric] mx q_def Let_def abs_mult)
  moreover have "(2::rat) ^ 1024 \<le> pow2 e"
    using pow2_le [of 1024 e] e by (simp add: pow2_def)
  ultimately show ?thesis
    unfolding pe by linarith
qed

lemma nearest_double_zero: "nearest_double 0 = 0"
  by (simp add: nearest_double_def)

lemma truediv_overflow:
  "b \<noteq> 0 \<Longrightarrow> 2 ^ 1024 \<le> \<bar>of_int a / of_int b :: rat\<bar> \<Longrightarrow> truediv a b = Inl OverflowError"
  using nearest_double_overflow [of "of_int a / of_int b"]
  by (simp add: truediv_def Let_def)

section \<open>Metrics: the index sum is the distance over consecutive pairs\<close>

lemma sum_list_upt_shift:
  "(\<Sum>i\<leftarrow>[1..<Suc (Suc n)]. g i) = g 1 + (\<Sum>i\<leftarrow>[1..<Suc n]. (g (Suc i) :: int))"
proof -
  have "[1..<Suc (Suc n)] = 1 # map Suc [1..<Suc n]"
    by (simp add: upt_conv_Cons map_Suc_upt del: upt_Suc)
  then show ?thesis
    by (simp add: comp_def del: upt_Suc)
qed

lemma index_sum_Cons: "index_sum (x # y # zs) = \<bar>y - x\<bar> + index_sum (y # zs)"
proof -
  let ?g = "\<lambda>i. \<bar>(x # y # zs) ! i - (x # y # zs) ! (i - 1)\<bar>"
  let ?h = "\<lambda>i. \<bar>(y # zs) ! i - (y # zs) ! (i - 1)\<bar>"
  have same: "map (\<lambda>i. ?g (Suc i)) [1..<Suc (length zs)] = map ?h [1..<Suc (length zs)]"
    by (rule map_cong) (auto simp: nth_Cons' simp del: upt_Suc)
  have "index_sum (x # y # zs) = (\<Sum>i\<leftarrow>[1..<Suc (Suc (length zs))]. ?g i)"
    unfolding index_sum_def by (simp only: length_Cons)
  also have "\<dots> = ?g 1 + (\<Sum>i\<leftarrow>[1..<Suc (length zs)]. ?g (Suc i))"
    by (rule sum_list_upt_shift)
  also have "\<dots> = \<bar>y - x\<bar> + (\<Sum>i\<leftarrow>[1..<Suc (length zs)]. ?h i)"
    by (simp only: same) simp
  also have "\<dots> = \<bar>y - x\<bar> + index_sum (y # zs)"
    unfolding index_sum_def by (simp only: length_Cons)
  finally show ?thesis .
qed

lemma index_sum_seek_distance: "index_sum xs = seek_distance xs"
proof (induction xs rule: seek_distance.induct)
  case (1 x y zs)
  then show ?case
    by (simp add: index_sum_Cons)
qed (simp_all add: index_sum_def)

section \<open>Metrics: what a call of \<^const>\<open>calculate_metrics\<close> leaves and reports\<close>

lemma seek_distance_nonneg: "0 \<le> seek_distance xs"
  by (induction xs rule: seek_distance.induct) simp_all

lemma total_sum_seek_distance:
  "(\<Sum>i\<leftarrow>[1..<length xs]. \<bar>xs ! i - xs ! (i - 1)\<bar>) = seek_distance xs"
  using index_sum_seek_distance [of xs] by (simp only: index_sum_def)

lemma calculate_metrics_fst:
  "fst (calculate_metrics s) = s\<lparr>total_seek := seek_distance (seek_sequence s)\<rparr>"
  unfolding calculate_metrics_def total_sum_seek_distance by (simp add: Let_def)

lemma calculate_metrics_outcome:
  "snd (calculate_metrics s) = Inl OverflowError
   \<or> snd (calculate_metrics s) =
       Inr (seek_distance (seek_sequence s),
            (if requests s \<noteq> []
             then nearest_double
               (of_int (seek_distance (seek_sequence s)) / of_int (int (length (requests s))))
             else 0),
            (if 0 < seek_distance (seek_sequence s)
             then nearest_double
               (of_int (int (length (requests s))) / of_int (seek_distance (seek_sequence s) + 1))
             else 0))"
proof -
  define T where "T = seek_distance (seek_sequence s)"
  define n where "n = int (length (requests s))"
  have avg: "requests s \<noteq> [] \<Longrightarrow>
      truediv T n = Inl OverflowError \<or> truediv T n = Inr (nearest_double (of_int T / of_int n))"
    using truediv_cases [of n T] unfolding n_def by simp
  have thr: "0 < T \<Longrightarrow>
      truediv n (T + 1) = Inl OverflowError
      \<or> truediv n (T + 1) = Inr (nearest_double (of_int n / of_int (T + 1)))"
    using truediv_cases [of "T + 1" n] by simp
  show ?thesis
    unfolding calculate_metrics_def total_sum_seek_distance T_def [symmetric]
    using avg thr
    by (cases "requests s = []"; cases "0 < T") (auto simp: Let_def n_def)
qed

text \<open>A call returns whenever the total and the number of requests are below \<open>2^1023\<close>.\<close>

lemma calculate_metrics_returns:
  assumes "seek_distance (seek_sequence s) < 2 ^ 1023"
    and "int (length (requests s)) < 2 ^ 1023"
  shows "calculate_metrics s =
     (s\<lparr>total_seek := seek_distance (seek_sequence s)\<rparr>,
      Inr (seek_distance (seek_sequence s),
           (if requests s \<noteq> []
            then nearest_double
              (of_int (seek_distance (seek_sequence s)) / of_int (int (length (requests s))))
            else 0),
           (if 0 < seek_distance (seek_sequence s)
            then nearest_double
              (of_int (int (length (requests s))) / of_int (seek_distance (seek_sequence s) + 1))
            else 0)))"
proof -
  define T where "T = seek_distance (seek_sequence s)"
  define n where "n = int (length (requests s))"
  have T0: "0 \<le> T" and T: "T < 2 ^ 1023" and n0: "0 \<le> n" and n: "n < 2 ^ 1023"
    using assms seek_distance_nonneg unfolding T_def n_def by simp_all
  have avg: "truediv T n = Inr (nearest_double (of_int T / of_int n))" if "requests s \<noteq> []"
  proof (rule truediv_in_range)
    show "n \<noteq> 0"
      using that unfolding n_def by simp
    then have "1 \<le> n"
      using n0 by simp
    then have "(of_int T :: rat) / of_int n \<le> of_int T"
      using T0 by (simp add: divide_le_eq mult_le_cancel_left1)
    moreover have "(of_int T :: rat) < 2 ^ 1023"
      using T by (metis of_int_less_iff of_int_numeral of_int_power)
    ultimately have "(of_int T :: rat) / of_int n < 2 ^ 1023"
      by (rule le_less_trans)
    moreover have "0 \<le> (of_int T :: rat) / of_int n"
      using T0 n0 by simp
    ultimately show "\<bar>of_int T / of_int n :: rat\<bar> < 2 ^ 1023"
      by (simp only: abs_of_nonneg)
  qed
  have thr: "truediv n (T + 1) = Inr (nearest_double (of_int n / of_int (T + 1)))"
  proof (rule truediv_in_range)
    show "T + 1 \<noteq> 0"
      using T0 by simp
    have "(of_int n :: rat) / of_int (T + 1) \<le> of_int n"
      using T0 n0 by (simp add: divide_le_eq mult_le_cancel_left1)
    moreover have "(of_int n :: rat) < 2 ^ 1023"
      using n by (metis of_int_less_iff of_int_numeral of_int_power)
    ultimately have "(of_int n :: rat) / of_int (T + 1) < 2 ^ 1023"
      by (rule le_less_trans)
    moreover have "0 \<le> (of_int n :: rat) / of_int (T + 1)"
      using T0 n0 by simp
    ultimately show "\<bar>of_int n / of_int (T + 1) :: rat\<bar> < 2 ^ 1023"
      by (simp only: abs_of_nonneg)
  qed
  show ?thesis
  proof (cases "requests s = []")
    case True
    have "truediv 0 (T + 1) = Inr 0"
      using T0 by (intro truediv_zero) simp
    then show ?thesis
      unfolding calculate_metrics_def total_sum_seek_distance T_def [symmetric]
      using True by (simp add: Let_def nearest_double_zero)
  next
    case False
    show ?thesis
      unfolding calculate_metrics_def total_sum_seek_distance T_def [symmetric]
      using False avg [OF False] thr by (simp add: Let_def n_def)
  qed
qed

lemma sstf_loop_Nil: "sstf_loop seq [] = seq"
  by (simp add: sstf_loop.simps)

lemma sstf_loop_Cons:
  "sstf_loop seq (r # rs) =
     sstf_loop (seq @ [min_from (\<lambda>x. \<bar>x - last seq\<bar>) r rs])
       (remove1 (min_from (\<lambda>x. \<bar>x - last seq\<bar>) r rs) (r # rs))"
  by (subst sstf_loop.simps) (simp add: Let_def)

section \<open>SSTF: the loop follows the greedy rule\<close>

text \<open>\<^const>\<open>min_from\<close> returns the first element of the list whose key is least.\<close>

lemma min_from_split:
  "\<exists>pre suf. b # xs = pre @ min_from f b xs # suf
      \<and> (\<forall>x\<in>set pre. f (min_from f b xs) < f x)
      \<and> (\<forall>x\<in>set suf. f (min_from f b xs) \<le> f x)"
proof (induction xs arbitrary: b)
  case Nil
  show ?case by (intro exI [of _ "[]"]) simp
next
  case (Cons x xs)
  show ?case
  proof (cases "f x < f b")
    case True
    then have m: "min_from f b (x # xs) = min_from f x xs"
      by simp
    from Cons.IH [of x] obtain pre suf where
      eq: "x # xs = pre @ min_from f x xs # suf"
      and pre: "\<forall>y\<in>set pre. f (min_from f x xs) < f y"
      and suf: "\<forall>y\<in>set suf. f (min_from f x xs) \<le> f y"
      by blast
    have "x \<in> set (pre @ min_from f x xs # suf)"
      unfolding eq [symmetric] by simp
    then have "f (min_from f x xs) \<le> f x"
      using pre suf by auto
    then have lt: "f (min_from f x xs) < f b"
      using True by simp
    show ?thesis
      unfolding m
      by (intro exI [of _ "b # pre"] exI [of _ suf]) (simp add: eq [symmetric] pre suf lt)
  next
    case False
    then have m: "min_from f b (x # xs) = min_from f b xs"
      by simp
    from Cons.IH [of b] obtain pre suf where
      eq: "b # xs = pre @ min_from f b xs # suf"
      and pre: "\<forall>y\<in>set pre. f (min_from f b xs) < f y"
      and suf: "\<forall>y\<in>set suf. f (min_from f b xs) \<le> f y"
      by blast
    show ?thesis
    proof (cases pre)
      case Nil
      have both: "b = min_from f b xs \<and> xs = suf"
        using eq [unfolded Nil append_Nil list.inject] .
      have b: "min_from f b xs = b"
        by (rule sym) (rule both [THEN conjunct1])
      have xs: "xs = suf"
        by (rule both [THEN conjunct2])
      show ?thesis
        unfolding m
        by (intro exI [of _ "[]"] exI [of _ "x # suf"]) (use False b xs suf in simp)
    next
      case (Cons p pre')
      have both: "b = p \<and> xs = pre' @ min_from f b xs # suf"
        using eq [unfolded Cons append_Cons list.inject] .
      have p: "p = b"
        by (rule sym) (rule both [THEN conjunct1])
      have xs: "xs = pre' @ min_from f b xs # suf"
        by (rule both [THEN conjunct2])
      have lt: "f (min_from f b xs) < f b"
        using pre Cons p by simp
      have pre': "\<forall>y\<in>set pre'. f (min_from f b xs) < f y"
        using pre Cons by simp
      show ?thesis
        unfolding m
        by (intro exI [of _ "b # x # pre'"] exI [of _ suf])
          (use False lt pre' suf xs [symmetric] in simp)
    qed
  qed
qed

lemma first_min_facts:
  fixes f :: "int \<Rightarrow> int"
  assumes ys: "ys = pre @ c # suf"
    and pre: "\<forall>x\<in>set pre. f c < f x"
    and suf: "\<forall>x\<in>set suf. f c \<le> f x"
  shows "Min (f ` set ys) = f c"
    and "takeWhile (\<lambda>x. f x \<noteq> f c) ys = pre"
    and "remove1 c ys = pre @ suf"
proof -
  show "Min (f ` set ys) = f c"
  proof (rule Min_eqI)
    show "finite (f ` set ys)" by simp
    show "f c \<in> f ` set ys" using ys by simp
    fix y assume "y \<in> f ` set ys"
    then show "f c \<le> y"
      using ys pre suf by (auto simp: less_imp_le)
  qed
  have "\<forall>x\<in>set pre. f x \<noteq> f c"
    using pre by auto
  then show "takeWhile (\<lambda>x. f x \<noteq> f c) ys = pre"
    unfolding ys by simp
  have "c \<notin> set pre"
    using pre by auto
  then show "remove1 c ys = pre @ suf"
    unfolding ys by (simp add: remove1_append)
qed

text \<open>
  What \<^verbatim>\<open>min\<close> picks is the element at the specification's index, and
  \<^verbatim>\<open>remove\<close> deletes the element at that index.
\<close>

lemma min_from_nearest:
  "min_from (\<lambda>x. \<bar>x - pos\<bar>) r rs = (r # rs) ! nearest_index pos (r # rs)"
  "remove1 (min_from (\<lambda>x. \<bar>x - pos\<bar>) r rs) (r # rs)
     = take (nearest_index pos (r # rs)) (r # rs) @ drop (Suc (nearest_index pos (r # rs))) (r # rs)"
proof -
  let ?f = "\<lambda>x. \<bar>x - pos\<bar>"
  let ?c = "min_from ?f r rs"
  obtain pre suf where ys: "r # rs = pre @ ?c # suf"
    and pre: "\<forall>x\<in>set pre. ?f ?c < ?f x"
    and suf: "\<forall>x\<in>set suf. ?f ?c \<le> ?f x"
    using min_from_split [of r rs ?f] by blast
  have idx: "nearest_index pos (r # rs) = length pre"
    unfolding nearest_index_def
    using first_min_facts(1,2) [OF ys pre suf] by simp
  have nth: "(r # rs) ! length pre = ?c"
    by (simp add: ys)
  show "?c = (r # rs) ! nearest_index pos (r # rs)"
    unfolding idx by (rule nth [symmetric])
  have "take (length pre) (r # rs) @ drop (Suc (length pre)) (r # rs) = pre @ suf"
    by (simp add: ys)
  then show "remove1 ?c (r # rs)
     = take (nearest_index pos (r # rs)) (r # rs) @ drop (Suc (nearest_index pos (r # rs))) (r # rs)"
    unfolding idx using first_min_facts(3) [OF ys pre suf] by (simp only:)
qed

lemma sstf_loop_greedy: "sstf_loop seq rem = seq @ greedy_order (last seq) rem"
proof (induction seq rem rule: sstf_loop.induct)
  case (1 seq remaining)
  show ?case
  proof (cases remaining)
    case Nil
    then show ?thesis
      by (simp add: sstf_loop_Nil greedy_order.simps)
  next
    case (Cons r rs)
    let ?c = "min_from (\<lambda>x. \<bar>x - last seq\<bar>) r rs"
    have "sstf_loop seq remaining = sstf_loop (seq @ [?c]) (remove1 ?c remaining)"
      unfolding Cons by (rule sstf_loop_Cons)
    also have "\<dots> = (seq @ [?c]) @ greedy_order (last (seq @ [?c])) (remove1 ?c remaining)"
      by (rule "1.IH" [OF Cons refl])
    also have "\<dots> = seq @ ?c # greedy_order ?c (remove1 ?c (r # rs))"
      by (simp add: Cons del: remove1.simps)
    also have "?c # greedy_order ?c (remove1 ?c (r # rs)) = greedy_order (last seq) (r # rs)"
    proof -
      define i where "i = nearest_index (last seq) (r # rs)"
      have c: "?c = (r # rs) ! i"
        unfolding i_def by (rule min_from_nearest(1))
      have rm: "remove1 ?c (r # rs) = take i (r # rs) @ drop (Suc i) (r # rs)"
        unfolding i_def by (rule min_from_nearest(2))
      have "greedy_order (last seq) (r # rs)
          = (r # rs) ! i # greedy_order ((r # rs) ! i) (take i (r # rs) @ drop (Suc i) (r # rs))"
        unfolding i_def by (subst greedy_order.simps) (simp only: Let_def list.distinct if_False)
      then show ?thesis
        by (simp only: rm [symmetric] c [symmetric])
    qed
    finally show ?thesis
      by (simp only: Cons)
  qed
qed

lemma mset_sstf_loop: "mset (sstf_loop seq rem) = mset seq + mset rem"
proof (induction seq rem rule: sstf_loop.induct)
  case (1 seq remaining)
  show ?case
  proof (cases remaining)
    case Nil
    then show ?thesis
      by (simp add: sstf_loop_Nil)
  next
    case (Cons r rs)
    let ?c = "min_from (\<lambda>x. \<bar>x - last seq\<bar>) r rs"
    have mem: "?c \<in> set (r # rs)"
      using min_from_split [of r rs "\<lambda>x. \<bar>x - last seq\<bar>"]
      by (metis in_set_conv_decomp)
    have "mset (sstf_loop seq remaining) = mset (seq @ [?c]) + mset (remove1 ?c remaining)"
      unfolding Cons sstf_loop_Cons by (rule "1.IH" [OF Cons refl, unfolded Cons])
    also have "\<dots> = mset seq + add_mset ?c (mset remaining - {#?c#})"
      by (simp del: remove1.simps)
    also have "add_mset ?c (mset remaining - {#?c#}) = mset remaining"
      using mem unfolding Cons by (intro insert_DiffM) (simp only: set_mset_mset)
    finally show ?thesis .
  qed
qed

section \<open>SCAN and C-SCAN: the stored sequence is the specified order\<close>

lemma sort_eq_Nil: "sort xs = [] \<longleftrightarrow> xs = ([] :: int list)"
  by (metis length_0_conv length_sort)

lemma last_sort_Max:
  fixes xs :: "int list"
  assumes "xs \<noteq> []"
  shows "last (sort xs) = Max (set xs)"
proof -
  have "sorted ys \<Longrightarrow> ys \<noteq> [] \<Longrightarrow> Max (set ys) = last ys" for ys :: "int list"
  proof (induction ys)
    case Nil
    then show ?case by simp
  next
    case (Cons y ys)
    show ?case
    proof (cases "ys = []")
      case True
      then show ?thesis by simp
    next
      case False
      then have "Max (set ys) = last ys"
        using Cons by simp
      moreover have "y \<le> last ys"
        using Cons.prems False by simp
      ultimately show ?thesis
        using False by (simp add: max_def)
    qed
  qed
  from this [of "sort xs"] show ?thesis
    using assms by (simp add: sort_eq_Nil)
qed

lemma hd_sort_Min:
  fixes xs :: "int list"
  assumes "xs \<noteq> []"
  shows "hd (sort xs) = Min (set xs)"
proof -
  have "sorted ys \<Longrightarrow> ys \<noteq> [] \<Longrightarrow> Min (set ys) = hd ys" for ys :: "int list"
    by (cases ys) (auto intro: Min_eqI)
  from this [of "sort xs"] show ?thesis
    using assms by (simp add: sort_eq_Nil)
qed

lemma scan_right_sequence:
  "scan (DiskScheduler rs h d) ''right''
     = calculate_metrics ((DiskScheduler rs h d)\<lparr>seek_sequence := scan_right_order h d rs\<rparr>)"
  by (simp add: scan_def scan_right_order_def DiskScheduler_def Let_def filter_sort
      sort_eq_Nil last_sort_Max cong: conj_cong)

lemma scan_left_sequence:
  "direction \<noteq> ''right'' \<Longrightarrow> scan (DiskScheduler rs h d) direction
     = calculate_metrics ((DiskScheduler rs h d)\<lparr>seek_sequence := scan_left_order h d rs\<rparr>)"
  by (simp add: scan_def scan_left_order_def DiskScheduler_def Let_def filter_sort
      sort_eq_Nil hd_sort_Min cong: conj_cong)

lemma cscan_sequence:
  "cscan (DiskScheduler rs h d)
     = calculate_metrics ((DiskScheduler rs h d)\<lparr>seek_sequence := cscan_order h d rs\<rparr>)"
  by (simp add: cscan_def cscan_order_def DiskScheduler_def Let_def filter_sort
      sort_eq_Nil last_sort_Max cong: conj_cong)

section \<open>Dispatch: each policy stores its specified order\<close>

lemma run_policy_order:
  "run_policy a direction (DiskScheduler rs h d)
     = calculate_metrics ((DiskScheduler rs h d)\<lparr>seek_sequence := policy_order a direction h d rs\<rparr>)"
proof -
  have f: "fcfs (DiskScheduler rs h d)
      = calculate_metrics ((DiskScheduler rs h d)\<lparr>seek_sequence := h # rs\<rparr>)"
    by (simp add: fcfs_def DiskScheduler_def)
  have "sstf_loop [h] rs = h # greedy_order h rs"
    using sstf_loop_greedy [of "[h]" rs] by simp
  then have s: "sstf (DiskScheduler rs h d)
      = calculate_metrics ((DiskScheduler rs h d)\<lparr>seek_sequence := h # greedy_order h rs\<rparr>)"
    by (simp add: sstf_def DiskScheduler_def)
  show ?thesis
    unfolding run_policy_def policy_order_def
    using f s scan_right_sequence [of rs h d] scan_left_sequence [of direction rs h d]
      cscan_sequence [of rs h d]
    by simp
qed

lemma run_policy_outcome:
  "(\<exists>m. snd (run_policy a direction (DiskScheduler rs h d)) = Inr m)
   \<or> snd (run_policy a direction (DiskScheduler rs h d)) = Inl OverflowError"
  unfolding run_policy_order
  using calculate_metrics_outcome
    [of "(DiskScheduler rs h d)\<lparr>seek_sequence := policy_order a direction h d rs\<rparr>"]
  by blast

lemma compare_all_outcome:
  "(\<exists>res'. compare_all as direction rs h d res = Inr res')
   \<or> compare_all as direction rs h d res = Inl OverflowError"
proof (induction as arbitrary: res)
  case Nil
  show ?case by simp
next
  case (Cons a as)
  obtain s' out where run: "run_policy a direction (DiskScheduler rs h d) = (s', out)"
    by (cases "run_policy a direction (DiskScheduler rs h d)")
  then have "(\<exists>m. out = Inr m) \<or> out = Inl OverflowError"
    using run_policy_outcome [of a direction rs h d] by simp
  then show ?case
  proof
    assume "\<exists>m. out = Inr m"
    then obtain m where "out = Inr m" ..
    then show ?thesis
      using run Cons.IH by simp
  next
    assume "out = Inl OverflowError"
    then show ?thesis
      using run by simp
  qed
qed

lemma run_algorithm_outcome:
  "(\<exists>res. run_algorithm algo direction rs h d = Inr res)
   \<or> run_algorithm algo direction rs h d = Inl OverflowError"
proof (cases "algo = ''Compare All''")
  case True
  show ?thesis
    unfolding run_algorithm_def if_P [OF True] by (rule compare_all_outcome)
next
  case False
  obtain s' out where run: "run_policy algo direction (DiskScheduler rs h d) = (s', out)"
    by (cases "run_policy algo direction (DiskScheduler rs h d)")
  then have "(\<exists>m. out = Inr m) \<or> out = Inl OverflowError"
    using run_policy_outcome [of algo direction rs h d] by simp
  then show ?thesis
    unfolding run_algorithm_def if_not_P [OF False] run by auto
qed

text \<open>A run of one policy that returns records the sequence the call left in the object.\<close>

lemma run_algorithm_records:
  assumes "algo \<noteq> ''Compare All''" and "run_algorithm algo direction rs h d = Inr res"
  shows "\<exists>m. res algo
      = Some (seek_sequence (fst (run_policy algo direction (DiskScheduler rs h d))), m)"
proof -
  obtain s' out where run: "run_policy algo direction (DiskScheduler rs h d) = (s', out)"
    by (cases "run_policy algo direction (DiskScheduler rs h d)")
  show ?thesis
    using assms unfolding run_algorithm_def run by (cases out) auto
qed

lemma validate_inputs_cases:
  "validate_inputs d h rs = Inr (d, h, rs)
   \<or> (\<exists>msg. validate_inputs d h rs = Inl (ValueError msg))"
  by (simp add: validate_inputs_def)

lemma validate_inputs_Inr_iff:
  "validate_inputs d h rs = Inr (d, h, rs)
   \<longleftrightarrow> \<not> (rs = [] \<or> d \<le> 0 \<or> h < 0 \<or> d \<le> h \<or> (\<exists>r\<in>set rs. r < 0 \<or> d \<le> r))"
  by (auto simp: validate_inputs_def list_ex_iff)

section \<open>Inputs on which every policy returns\<close>

lemma seek_distance_bound:
  "\<forall>x\<in>set xs. 0 \<le> x \<and> x < d \<Longrightarrow> seek_distance xs \<le> int (length xs - 1) * d"
proof (induction xs rule: seek_distance.induct)
  case (1 x y zs)
  have "0 \<le> x \<and> x < d \<and> 0 \<le> y \<and> y < d"
    using "1.prems" by simp
  then have "\<bar>y - x\<bar> \<le> d"
    by linarith
  moreover have "seek_distance (y # zs) \<le> int (length zs) * d"
    using 1 by simp
  ultimately show ?case
    by (simp add: algebra_simps)
qed simp_all

lemma mset_greedy_order: "mset (greedy_order h rs) = mset rs"
  using mset_sstf_loop [of "[h]" rs] sstf_loop_greedy [of "[h]" rs] by simp

lemma policy_order_range:
  assumes "0 \<le> h" and "h < d" and "\<forall>r\<in>set rs. 0 \<le> r \<and> r < d"
  shows "\<forall>x\<in>set (policy_order a direction h d rs). 0 \<le> x \<and> x < d"
proof -
  have "set (greedy_order h rs) = set rs"
    using mset_greedy_order [of h rs] by (rule mset_eq_setD)
  then have "\<forall>x\<in>set (h # greedy_order h rs). 0 \<le> x \<and> x < d"
    using assms by simp
  moreover have "\<forall>x\<in>set (h # rs). 0 \<le> x \<and> x < d"
    using assms by simp
  moreover have "\<forall>x\<in>set (scan_right_order h d rs). 0 \<le> x \<and> x < d"
    using assms by (auto simp: scan_right_order_def Let_def)
  moreover have "\<forall>x\<in>set (scan_left_order h d rs). 0 \<le> x \<and> x < d"
    using assms by (auto simp: scan_left_order_def Let_def)
  moreover have "\<forall>x\<in>set (cscan_order h d rs). 0 \<le> x \<and> x < d"
    using assms by (auto simp: cscan_order_def Let_def)
  ultimately show ?thesis
    unfolding policy_order_def by simp
qed

lemma policy_order_length: "length (policy_order a direction h d rs) \<le> length rs + 3"
proof -
  have "length (greedy_order h rs) = length rs"
    using mset_greedy_order [of h rs] by (rule mset_eq_length)
  moreover have "length (filter (\<lambda>x. h \<le> x) rs) + length (filter (\<lambda>x. x < h) rs) = length rs"
    using sum_length_filter_compl [of "\<lambda>x. h \<le> x" rs] by (simp add: not_le)
  moreover have "length (filter (\<lambda>x. x \<le> h) rs) + length (filter (\<lambda>x. h < x) rs) = length rs"
    using sum_length_filter_compl [of "\<lambda>x. x \<le> h" rs] by (simp add: not_le)
  ultimately show ?thesis
    unfolding policy_order_def scan_right_order_def scan_left_order_def cscan_order_def Let_def
    by simp
qed

lemma run_policy_returns:
  assumes "0 \<le> h" and "h < d" and "\<forall>r\<in>set rs. 0 \<le> r \<and> r < d"
    and "(int (length rs) + 2) * d < 2 ^ 1023"
  shows "\<exists>s' m. run_policy a direction (DiskScheduler rs h d) = (s', Inr m)"
proof -
  let ?seq = "policy_order a direction h d rs"
  let ?s = "(DiskScheduler rs h d)\<lparr>seek_sequence := ?seq\<rparr>"
  have d: "1 \<le> d"
    using assms(1,2) by simp
  have "seek_distance ?seq \<le> int (length ?seq - 1) * d"
    using policy_order_range [OF assms(1-3)] by (rule seek_distance_bound)
  also have "\<dots> \<le> (int (length rs) + 2) * d"
    using policy_order_length [of a direction h d rs] d by (intro mult_right_mono) simp_all
  finally have T: "seek_distance (seek_sequence ?s) < 2 ^ 1023"
    using assms(4) by simp
  have "int (length rs) * 1 \<le> (int (length rs) + 2) * d"
    using d by (intro mult_mono) simp_all
  then have n: "int (length (requests ?s)) < 2 ^ 1023"
    using assms(4) by (simp add: DiskScheduler_def)
  show ?thesis
    unfolding run_policy_order calculate_metrics_returns [OF T n] by blast
qed

lemma compare_all_returns:
  assumes "0 \<le> h" and "h < d" and "\<forall>r\<in>set rs. 0 \<le> r \<and> r < d"
    and "(int (length rs) + 2) * d < 2 ^ 1023"
  shows "\<exists>res'. compare_all as direction rs h d res = Inr res'"
proof (induction as arbitrary: res)
  case Nil
  show ?case by simp
next
  case (Cons a as)
  obtain s' m where "run_policy a direction (DiskScheduler rs h d) = (s', Inr m)"
    using run_policy_returns [OF assms] by blast
  then show ?case
    using Cons.IH by simp
qed

lemma run_algorithm_returns:
  assumes "0 \<le> h" and "h < d" and "\<forall>r\<in>set rs. 0 \<le> r \<and> r < d"
    and "(int (length rs) + 2) * d < 2 ^ 1023"
  shows "\<exists>res. run_algorithm algo direction rs h d = Inr res"
proof (cases "algo = ''Compare All''")
  case True
  show ?thesis
    unfolding run_algorithm_def if_P [OF True] by (rule compare_all_returns [OF assms])
next
  case False
  obtain s' m where "run_policy algo direction (DiskScheduler rs h d) = (s', Inr m)"
    using run_policy_returns [OF assms] by blast
  then show ?thesis
    unfolding run_algorithm_def if_not_P [OF False] by simp
qed

section \<open>Runs inside and beyond the double range\<close>


text \<open>
  Beyond the double range a call raises. With head 0, a single request \<open>N\<close> of at
  least \<open>2^1024\<close> and disk size \<open>N + 1\<close> the input passes the validation and the run
  ends in \<^verbatim>\<open>OverflowError\<close>, raised by the average of line 26 after the sequence and
  the total have been stored.
\<close>

lemma overflow_on_valid_input:
  assumes "2 ^ 1024 \<le> N"
  shows "validate_inputs (N + 1) 0 [N] = Inr (N + 1, 0, [N])"
    and "fcfs (DiskScheduler [N] 0 (N + 1))
       = (\<lparr>requests = [N], head = 0, disk_size = N + 1,
            seek_sequence = [0, N], total_seek = N\<rparr>, Inl OverflowError)"
    and "run_simulation ''FCFS'' direction (N + 1) 0 [N] = Inl OverflowError"
proof -
  have N: "0 \<le> N"
    using assms by (rule order_trans [rotated]) simp
  show v: "validate_inputs (N + 1) 0 [N] = Inr (N + 1, 0, [N])"
    using N by (simp add: validate_inputs_def)
  have "(2 :: rat) ^ 1024 \<le> of_int N"
    using assms by (metis of_int_le_iff of_int_numeral of_int_power)
  then have "truediv N 1 = Inl OverflowError"
    using N by (intro truediv_overflow) simp_all
  then show f: "fcfs (DiskScheduler [N] 0 (N + 1))
       = (\<lparr>requests = [N], head = 0, disk_size = N + 1,
            seek_sequence = [0, N], total_seek = N\<rparr>, Inl OverflowError)"
    using N by (simp add: fcfs_def DiskScheduler_def calculate_metrics_def)
  show "run_simulation ''FCFS'' direction (N + 1) 0 [N] = Inl OverflowError"
    unfolding run_simulation_def v by (simp add: run_algorithm_def run_policy_def f)
qed

text \<open>
  A run whose total and request count are below \<open>2^1023\<close>, with everything it leaves
  and reports written out.
\<close>

lemma run_policy_in_range:
  assumes "seek_distance (policy_order a direction h d rs) < 2 ^ 1023"
    and "int (length rs) < 2 ^ 1023"
  shows "run_policy a direction (DiskScheduler rs h d) =
     (\<lparr>requests = rs, head = h, disk_size = d,
        seek_sequence = policy_order a direction h d rs,
        total_seek = seek_distance (policy_order a direction h d rs)\<rparr>,
      Inr (seek_distance (policy_order a direction h d rs),
           (if rs \<noteq> []
            then nearest_double
              (of_int (seek_distance (policy_order a direction h d rs)) / of_int (int (length rs)))
            else 0),
           (if 0 < seek_distance (policy_order a direction h d rs)
            then nearest_double
              (of_int (int (length rs)) / of_int (seek_distance (policy_order a direction h d rs) + 1))
            else 0)))"
proof -
  let ?s = "(DiskScheduler rs h d)\<lparr>seek_sequence := policy_order a direction h d rs\<rparr>"
  have T: "seek_distance (seek_sequence ?s) < 2 ^ 1023"
    using assms(1) by simp
  have n: "int (length (requests ?s)) < 2 ^ 1023"
    using assms(2) by (simp add: DiskScheduler_def)
  show ?thesis
    unfolding run_policy_order calculate_metrics_returns [OF T n]
    by (simp add: DiskScheduler_def)
qed

section \<open>The claims\<close>

text \<open>
  C1, as amended. For every input (valid ones in particular) and every policy, when
  the call returns its metrics, the sequence in the object is the policy's order, the
  reported total is the distance over that sequence, and the reported throughput is
  Python's quotient of the number of original requests by the total plus one (the
  double nearest to the exact quotient) when the total is positive, and 0 when the
  total is 0.
\<close>

theorem throughput_guarded:
  assumes "run_policy a direction (DiskScheduler rs h d) = (s', Inr (tot, avg, thr))"
  shows "seek_sequence s' = policy_order a direction h d rs
       \<and> tot = seek_distance (seek_sequence s')
       \<and> thr = (if 0 < tot
                then nearest_double (of_int (int (length rs)) / of_int (tot + 1))
                else 0)"
proof -
  let ?s = "(DiskScheduler rs h d)\<lparr>seek_sequence := policy_order a direction h d rs\<rparr>"
  have run: "calculate_metrics ?s = (s', Inr (tot, avg, thr))"
    using assms unfolding run_policy_order .
  have "s' = fst (calculate_metrics ?s)"
    unfolding run by simp
  then have s': "s' = ?s\<lparr>total_seek := seek_distance (seek_sequence ?s)\<rparr>"
    by (simp only: calculate_metrics_fst)
  have "snd (calculate_metrics ?s) = Inr (tot, avg, thr)"
    unfolding run by simp
  then show ?thesis
    using calculate_metrics_outcome [of ?s] unfolding s'
    by (auto simp: DiskScheduler_def)
qed

theorem throughput_guarded_witness:
  "run_policy ''SCAN'' ''right'' (DiskScheduler [3, 1] 2 5)
     = (\<lparr>requests = [3, 1], head = 2, disk_size = 5, seek_sequence = [2, 3, 4, 1],
          total_seek = 5\<rparr>,
        Inr (5, nearest_double (5 / 2), nearest_double (2 / 6)))
   \<and> seek_sequence \<lparr>requests = [3, 1], head = 2, disk_size = 5, seek_sequence = [2, 3, 4, 1],
          total_seek = 5\<rparr> = policy_order ''SCAN'' ''right'' 2 5 [3, 1]
   \<and> (5 :: int) = seek_distance (seek_sequence
          \<lparr>requests = [3, 1], head = 2, disk_size = 5, seek_sequence = [2, 3, 4, 1],
             total_seek = 5\<rparr>)
   \<and> nearest_double (2 / 6)
       = (if 0 < (5 :: int)
          then nearest_double (of_int (int (length [3, 1 :: int])) / of_int (5 + 1)) else 0)"
proof -
  have order: "policy_order ''SCAN'' ''right'' 2 5 [3, 1] = [2, 3, 4, 1]"
    by (simp add: policy_order_def scan_right_order_def)
  have dist: "seek_distance [2, 3, 4, 1] = 5"
    by simp
  have "run_policy ''SCAN'' ''right'' (DiskScheduler [3, 1] 2 5)
     = (\<lparr>requests = [3, 1], head = 2, disk_size = 5, seek_sequence = [2, 3, 4, 1],
          total_seek = 5\<rparr>,
        Inr (5, (if [3, 1] \<noteq> ([] :: int list)
                 then nearest_double (of_int 5 / of_int (int (length [3, 1 :: int]))) else 0),
             (if 0 < (5 :: int)
              then nearest_double (of_int (int (length [3, 1 :: int])) / of_int (5 + 1)) else 0)))"
    using run_policy_in_range [of "''SCAN''" "''right''" 2 5 "[3, 1]"]
    unfolding order dist by simp
  then have run: "run_policy ''SCAN'' ''right'' (DiskScheduler [3, 1] 2 5)
     = (\<lparr>requests = [3, 1], head = 2, disk_size = 5, seek_sequence = [2, 3, 4, 1],
          total_seek = 5\<rparr>,
        Inr (5, nearest_double (5 / 2), nearest_double (2 / 6)))"
    by simp
  show ?thesis
    by (rule conjI [OF run throughput_guarded [OF run]])
qed

text \<open>
  C1 as stated fails: head 5, the single request 5 and disk size 10 pass the
  validation, FCFS returns with total 0 and throughput 0, and the claim's value, the
  number of requests \<open>1 / (0 + 1)\<close>, is not 0, neither as a fraction nor as a double.
\<close>

theorem throughput_zero_total_counterexample:
  "validate_inputs 10 5 [5] = Inr (10, 5, [5])
   \<and> fcfs (DiskScheduler [5] 5 10)
       = (\<lparr>requests = [5], head = 5, disk_size = 10, seek_sequence = [5, 5], total_seek = 0\<rparr>,
          Inr (0, 0, 0))
   \<and> (0 :: rat) \<noteq> of_int (int (length [5 :: int])) / of_int (0 + 1)
   \<and> (0 :: rat) \<noteq> nearest_double (of_int (int (length [5 :: int])) / of_int (0 + 1))"
proof -
  have "\<bar>nearest_double 1 - 1\<bar> \<le> \<bar>1\<bar> / 2 ^ 53"
    by (rule nearest_double_relative_error) (simp add: pow2_def)
  then have "nearest_double 1 \<noteq> 0"
    by auto
  moreover have "truediv 0 1 = Inr 0"
    by (rule truediv_zero) simp
  ultimately show ?thesis
    by (simp add: validate_inputs_def fcfs_def DiskScheduler_def calculate_metrics_def)
qed

text \<open>
  C2. For every input (valid ones in particular), the sequence that SCAN with direction
  \<open>right\<close> leaves in the object is the head, then the requests not below the head in
  ascending order, then \<open>disk_size - 1\<close> if that part is not empty and its maximum is
  not \<open>disk_size - 1\<close>, then the requests below the head in descending order; with
  direction \<open>left\<close> it is the head, the requests not above the head in descending
  order, 0 if that part is not empty and its minimum is not 0, and the requests above
  the head in ascending order. The call returns its metrics, or raises
  \<^verbatim>\<open>OverflowError\<close> and nothing else.
\<close>

theorem scan_sequence_by_direction:
  "seek_sequence (fst (scan (DiskScheduler rs h d) ''right'')) = scan_right_order h d rs
   \<and> seek_sequence (fst (scan (DiskScheduler rs h d) ''left'')) = scan_left_order h d rs
   \<and> ((\<exists>m. snd (scan (DiskScheduler rs h d) ''right'') = Inr m)
        \<or> snd (scan (DiskScheduler rs h d) ''right'') = Inl OverflowError)
   \<and> ((\<exists>m. snd (scan (DiskScheduler rs h d) ''left'') = Inr m)
        \<or> snd (scan (DiskScheduler rs h d) ''left'') = Inl OverflowError)"
proof -
  let ?r = "(DiskScheduler rs h d)\<lparr>seek_sequence := scan_right_order h d rs\<rparr>"
  let ?l = "(DiskScheduler rs h d)\<lparr>seek_sequence := scan_left_order h d rs\<rparr>"
  have r: "scan (DiskScheduler rs h d) ''right'' = calculate_metrics ?r"
    by (rule scan_right_sequence)
  have l: "scan (DiskScheduler rs h d) ''left'' = calculate_metrics ?l"
    by (rule scan_left_sequence) simp
  show ?thesis
    unfolding r l calculate_metrics_fst
    using calculate_metrics_outcome [of ?r] calculate_metrics_outcome [of ?l]
    by auto
qed

theorem scan_sequence_by_direction_witness:
  "seek_sequence (fst (scan (DiskScheduler [98, 183, 37, 122, 14, 124, 65, 67] 50 200) ''right''))
     = [50, 65, 67, 98, 122, 124, 183, 199, 37, 14]
   \<and> seek_sequence (fst (scan (DiskScheduler [98, 183, 37, 122, 14, 124, 65, 67] 50 200) ''left''))
     = [50, 37, 14, 0, 65, 67, 98, 122, 124, 183]"
proof -
  have r: "scan_right_order 50 200 [98, 183, 37, 122, 14, 124, 65, 67]
      = [50, 65, 67, 98, 122, 124, 183, 199, 37, 14]"
    by (simp add: scan_right_order_def)
  have l: "scan_left_order 50 200 [98, 183, 37, 122, 14, 124, 65, 67]
      = [50, 37, 14, 0, 65, 67, 98, 122, 124, 183]"
    by (simp add: scan_left_order_def)
  show ?thesis
    using scan_sequence_by_direction [of "[98, 183, 37, 122, 14, 124, 65, 67]" 50 200]
    unfolding r l by blast
qed

text \<open>
  C3. For every input (valid ones in particular), the sequence that C-SCAN leaves in
  the object is the head, then the requests not below the head in ascending order, then
  \<open>disk_size - 1\<close> if that part is not empty and its maximum is not \<open>disk_size - 1\<close>,
  then 0 in every case, then the requests below the head in ascending order. The call
  returns its metrics, or raises \<^verbatim>\<open>OverflowError\<close> and nothing else.
\<close>

theorem cscan_sequence_order:
  "seek_sequence (fst (cscan (DiskScheduler rs h d))) = cscan_order h d rs
   \<and> ((\<exists>m. snd (cscan (DiskScheduler rs h d)) = Inr m)
        \<or> snd (cscan (DiskScheduler rs h d)) = Inl OverflowError)"
proof -
  let ?c = "(DiskScheduler rs h d)\<lparr>seek_sequence := cscan_order h d rs\<rparr>"
  show ?thesis
    unfolding cscan_sequence calculate_metrics_fst
    using calculate_metrics_outcome [of ?c] by auto
qed

theorem cscan_sequence_order_witness:
  "seek_sequence (fst (cscan (DiskScheduler [98, 183, 37, 122, 14, 124, 65, 67] 50 200)))
     = [50, 65, 67, 98, 122, 124, 183, 199, 0, 14, 37]"
proof -
  have c: "cscan_order 50 200 [98, 183, 37, 122, 14, 124, 65, 67]
      = [50, 65, 67, 98, 122, 124, 183, 199, 0, 14, 37]"
    by (simp add: cscan_order_def)
  show ?thesis
    using cscan_sequence_order [of "[98, 183, 37, 122, 14, 124, 65, 67]" 50 200]
    unfolding c by blast
qed

text \<open>
  C4. For every input (valid ones in particular), the sequence that SSTF leaves in the
  object is the head followed by the greedy order: again and again the remaining
  request nearest to the position reached last, on a tie the first such element of the
  remaining list, which is removed. The sequence after the head is a permutation of
  the requests. The call returns its metrics, or raises \<^verbatim>\<open>OverflowError\<close> and
  nothing else.
\<close>

theorem sstf_sequence_greedy:
  "seek_sequence (fst (sstf (DiskScheduler rs h d))) = h # greedy_order h rs
   \<and> mset (tl (seek_sequence (fst (sstf (DiskScheduler rs h d))))) = mset rs
   \<and> ((\<exists>m. snd (sstf (DiskScheduler rs h d)) = Inr m)
        \<or> snd (sstf (DiskScheduler rs h d)) = Inl OverflowError)"
proof -
  let ?s = "(DiskScheduler rs h d)\<lparr>seek_sequence := h # greedy_order h rs\<rparr>"
  have "sstf_loop [h] rs = h # greedy_order h rs"
    using sstf_loop_greedy [of "[h]" rs] by simp
  then have s: "sstf (DiskScheduler rs h d) = calculate_metrics ?s"
    by (simp add: sstf_def DiskScheduler_def)
  have "mset (tl (h # greedy_order h rs)) = mset rs"
    using mset_greedy_order [of h rs] by simp
  then show ?thesis
    unfolding s calculate_metrics_fst
    using calculate_metrics_outcome [of ?s] by auto
qed

theorem sstf_sequence_greedy_witness:
  "seek_sequence (fst (sstf (DiskScheduler [3, 1, 3] 2 5))) = [2, 3, 3, 1]
   \<and> mset (tl (seek_sequence (fst (sstf (DiskScheduler [3, 1, 3] 2 5))))) = mset [3, 1, 3]"
proof -
  have g: "greedy_order 2 [3, 1, 3] = [3, 3, 1]"
    by (simp add: greedy_order.simps nearest_index_def Let_def)
  show ?thesis
    using sstf_sequence_greedy [of "[3, 1, 3]" 2 5] unfolding g by blast
qed

text \<open>
  C5. For every input (valid ones in particular), the sequence that FCFS leaves in the
  object is the head followed by the request list as the caller gave it: same order,
  same duplicates. The call returns its metrics, or raises \<^verbatim>\<open>OverflowError\<close> and
  nothing else.
\<close>

theorem fcfs_sequence_verbatim:
  "seek_sequence (fst (fcfs (DiskScheduler rs h d))) = h # rs
   \<and> ((\<exists>m. snd (fcfs (DiskScheduler rs h d)) = Inr m)
        \<or> snd (fcfs (DiskScheduler rs h d)) = Inl OverflowError)"
proof -
  let ?s = "(DiskScheduler rs h d)\<lparr>seek_sequence := h # rs\<rparr>"
  have f: "fcfs (DiskScheduler rs h d) = calculate_metrics ?s"
    by (simp add: fcfs_def DiskScheduler_def)
  show ?thesis
    unfolding f calculate_metrics_fst
    using calculate_metrics_outcome [of ?s] by auto
qed

theorem fcfs_sequence_verbatim_witness:
  "seek_sequence (fst (fcfs (DiskScheduler [98, 183, 37, 98] 50 200))) = [50, 98, 183, 37, 98]"
  using fcfs_sequence_verbatim [of "[98, 183, 37, 98]" 50 200] by blast

text \<open>
  C6. A run fails with the validation's \<^verbatim>\<open>ValueError\<close> exactly when the request list is
  empty, or the disk size is not positive, or the head or some request lies outside
  \<open>[0, disk_size)\<close>. On such an input the failure is the validation's own, which comes
  before the policies, so nothing is produced. On every other input the run returns
  results or ends in \<^verbatim>\<open>OverflowError\<close>, and it returns results whenever the number of
  requests plus two, times the disk size, is below \<open>2^1023\<close>.
\<close>

theorem run_simulation_fails_iff_invalid:
  "((\<exists>msg. run_simulation algo direction d h rs = Inl (ValueError msg))
      \<longleftrightarrow> (rs = [] \<or> d \<le> 0 \<or> h < 0 \<or> d \<le> h \<or> (\<exists>r\<in>set rs. r < 0 \<or> d \<le> r)))
   \<and> ((rs = [] \<or> d \<le> 0 \<or> h < 0 \<or> d \<le> h \<or> (\<exists>r\<in>set rs. r < 0 \<or> d \<le> r))
        \<longrightarrow> (\<exists>msg. validate_inputs d h rs = Inl (ValueError msg)
                  \<and> run_simulation algo direction d h rs = Inl (ValueError msg)))
   \<and> (\<not> (rs = [] \<or> d \<le> 0 \<or> h < 0 \<or> d \<le> h \<or> (\<exists>r\<in>set rs. r < 0 \<or> d \<le> r))
        \<longrightarrow> (\<exists>res. run_simulation algo direction d h rs = Inr res)
            \<or> run_simulation algo direction d h rs = Inl OverflowError)
   \<and> (\<not> (rs = [] \<or> d \<le> 0 \<or> h < 0 \<or> d \<le> h \<or> (\<exists>r\<in>set rs. r < 0 \<or> d \<le> r))
        \<and> (int (length rs) + 2) * d < 2 ^ 1023
        \<longrightarrow> (\<exists>res. run_simulation algo direction d h rs = Inr res))"
proof (cases "validate_inputs d h rs = Inr (d, h, rs)")
  case True
  then have valid: "\<not> (rs = [] \<or> d \<le> 0 \<or> h < 0 \<or> d \<le> h \<or> (\<exists>r\<in>set rs. r < 0 \<or> d \<le> r))"
    using validate_inputs_Inr_iff [of d h rs] by blast
  have run: "run_simulation algo direction d h rs = run_algorithm algo direction rs h d"
    unfolding run_simulation_def True by simp
  have out: "(\<exists>res. run_simulation algo direction d h rs = Inr res)
      \<or> run_simulation algo direction d h rs = Inl OverflowError"
    unfolding run by (rule run_algorithm_outcome)
  then have no: "\<not> (\<exists>msg. run_simulation algo direction d h rs = Inl (ValueError msg))"
    by auto
  have ret: "\<exists>res. run_simulation algo direction d h rs = Inr res"
    if "(int (length rs) + 2) * d < 2 ^ 1023"
  proof -
    have "0 \<le> h" and "h < d" and "\<forall>r\<in>set rs. 0 \<le> r \<and> r < d"
      using valid by auto
    then show ?thesis
      unfolding run using that by (rule run_algorithm_returns)
  qed
  show ?thesis
    using valid out no ret by blast
next
  case False
  then obtain msg where msg: "validate_inputs d h rs = Inl (ValueError msg)"
    using validate_inputs_cases by blast
  have run: "run_simulation algo direction d h rs = Inl (ValueError msg)"
    unfolding run_simulation_def by (simp add: msg)
  have invalid: "rs = [] \<or> d \<le> 0 \<or> h < 0 \<or> d \<le> h \<or> (\<exists>r\<in>set rs. r < 0 \<or> d \<le> r)"
    using False validate_inputs_Inr_iff by blast
  show ?thesis
    using invalid run msg by blast
qed

theorem run_simulation_fails_iff_invalid_witness:
  "(\<exists>msg. run_simulation ''SCAN'' ''right'' 200 200 [98, 183] = Inl (ValueError msg))
   \<and> (\<exists>res. run_simulation ''Compare All'' ''right'' 200 50 [98, 183] = Inr res)"
proof -
  have "\<exists>msg. run_simulation ''SCAN'' ''right'' 200 200 [98, 183] = Inl (ValueError msg)"
    using run_simulation_fails_iff_invalid [of "''SCAN''" "''right''" 200 200 "[98, 183]"]
    by simp
  moreover have "(int (length [98, 183 :: int]) + 2) * 200 < (2 :: int) ^ 1023"
    by simp
  then have "\<exists>res. run_simulation ''Compare All'' ''right'' 200 50 [98, 183] = Inr res"
    using run_simulation_fails_iff_invalid [of "''Compare All''" "''right''" 200 50 "[98, 183]"]
    by simp
  ultimately show ?thesis
    by blast
qed

text \<open>
  C7. For every input with at least one request (valid ones in particular) and every
  policy, when the call returns its metrics, the sequence in the object is the
  policy's order, boundary visits included, the reported total, which is also the one
  stored in the object, is the sum of the absolute differences of the consecutive
  pairs of that sequence, and the reported average is Python's quotient of that total
  by the number of original requests (the double nearest to the exact quotient).
\<close>

theorem reported_total_and_average:
  assumes "rs \<noteq> []"
    and "run_policy a direction (DiskScheduler rs h d) = (s', Inr (tot, avg, thr))"
  shows "seek_sequence s' = policy_order a direction h d rs
       \<and> tot = seek_distance (seek_sequence s')
       \<and> total_seek s' = tot
       \<and> avg = nearest_double (of_int tot / of_int (int (length rs)))"
proof -
  let ?s = "(DiskScheduler rs h d)\<lparr>seek_sequence := policy_order a direction h d rs\<rparr>"
  have run: "calculate_metrics ?s = (s', Inr (tot, avg, thr))"
    using assms(2) unfolding run_policy_order .
  have "s' = fst (calculate_metrics ?s)"
    unfolding run by simp
  then have s': "s' = ?s\<lparr>total_seek := seek_distance (seek_sequence ?s)\<rparr>"
    by (simp only: calculate_metrics_fst)
  have "snd (calculate_metrics ?s) = Inr (tot, avg, thr)"
    unfolding run by simp
  then show ?thesis
    using calculate_metrics_outcome [of ?s] assms(1) unfolding s'
    by (auto simp: DiskScheduler_def)
qed

theorem reported_total_and_average_witness:
  "[3, 1] \<noteq> ([] :: int list)
   \<and> run_policy ''C-SCAN'' ''right'' (DiskScheduler [3, 1] 2 5)
     = (\<lparr>requests = [3, 1], head = 2, disk_size = 5, seek_sequence = [2, 3, 4, 0, 1],
          total_seek = 7\<rparr>,
        Inr (7, nearest_double (7 / 2), nearest_double (2 / 8)))
   \<and> seek_sequence \<lparr>requests = [3, 1], head = 2, disk_size = 5,
          seek_sequence = [2, 3, 4, 0, 1], total_seek = 7\<rparr>
       = policy_order ''C-SCAN'' ''right'' 2 5 [3, 1]
   \<and> (7 :: int) = seek_distance (seek_sequence
          \<lparr>requests = [3, 1], head = 2, disk_size = 5, seek_sequence = [2, 3, 4, 0, 1],
             total_seek = 7\<rparr>)
   \<and> total_seek \<lparr>requests = [3, 1], head = 2, disk_size = 5,
          seek_sequence = [2, 3, 4, 0, 1], total_seek = 7\<rparr> = 7
   \<and> nearest_double (7 / 2) = nearest_double (of_int 7 / of_int (int (length [3, 1 :: int])))"
proof -
  have ne: "[3, 1] \<noteq> ([] :: int list)"
    by simp
  have order: "policy_order ''C-SCAN'' ''right'' 2 5 [3, 1] = [2, 3, 4, 0, 1]"
    by (simp add: policy_order_def cscan_order_def)
  have dist: "seek_distance [2, 3, 4, 0, 1] = 7"
    by simp
  have "run_policy ''C-SCAN'' ''right'' (DiskScheduler [3, 1] 2 5)
     = (\<lparr>requests = [3, 1], head = 2, disk_size = 5, seek_sequence = [2, 3, 4, 0, 1],
          total_seek = 7\<rparr>,
        Inr (7, (if [3, 1] \<noteq> ([] :: int list)
                 then nearest_double (of_int 7 / of_int (int (length [3, 1 :: int]))) else 0),
             (if 0 < (7 :: int)
              then nearest_double (of_int (int (length [3, 1 :: int])) / of_int (7 + 1)) else 0)))"
    using run_policy_in_range [of "''C-SCAN''" "''right''" 2 5 "[3, 1]"]
    unfolding order dist by simp
  then have run: "run_policy ''C-SCAN'' ''right'' (DiskScheduler [3, 1] 2 5)
     = (\<lparr>requests = [3, 1], head = 2, disk_size = 5, seek_sequence = [2, 3, 4, 0, 1],
          total_seek = 7\<rparr>,
        Inr (7, nearest_double (7 / 2), nearest_double (2 / 8)))"
    by simp
  show ?thesis
    by (rule conjI [OF ne conjI [OF run reported_total_and_average [OF ne run]]])
qed

text \<open>
  C8. When the head and every request lie in \<open>[0, disk_size)\<close>, every element of the
  sequence that SCAN leaves in the object, whatever the direction, and of the sequence
  that C-SCAN leaves lies in \<open>[0, disk_size)\<close>, the boundary visits included.
\<close>

theorem scan_cscan_within_disk:
  assumes "0 \<le> h" and "h < d" and "\<forall>r\<in>set rs. 0 \<le> r \<and> r < d"
  shows "(\<forall>x\<in>set (seek_sequence (fst (scan (DiskScheduler rs h d) direction))). 0 \<le> x \<and> x < d)
       \<and> (\<forall>x\<in>set (seek_sequence (fst (cscan (DiskScheduler rs h d)))). 0 \<le> x \<and> x < d)"
proof -
  have r: "\<forall>x\<in>set (scan_right_order h d rs). 0 \<le> x \<and> x < d"
    using assms by (auto simp: scan_right_order_def Let_def)
  have l: "\<forall>x\<in>set (scan_left_order h d rs). 0 \<le> x \<and> x < d"
    using assms by (auto simp: scan_left_order_def Let_def)
  have c: "\<forall>x\<in>set (cscan_order h d rs). 0 \<le> x \<and> x < d"
    using assms by (auto simp: cscan_order_def Let_def)
  have "seek_sequence (fst (scan (DiskScheduler rs h d) direction))
      = (if direction = ''right'' then scan_right_order h d rs else scan_left_order h d rs)"
  proof (cases "direction = ''right''")
    case True
    have "seek_sequence (fst (scan (DiskScheduler rs h d) ''right'')) = scan_right_order h d rs"
      by (simp add: scan_right_sequence calculate_metrics_fst)
    then show ?thesis
      using True by simp
  next
    case False
    have "seek_sequence (fst (scan (DiskScheduler rs h d) direction)) = scan_left_order h d rs"
      by (simp add: scan_left_sequence [OF False] calculate_metrics_fst)
    then show ?thesis
      using False by simp
  qed
  moreover have "seek_sequence (fst (cscan (DiskScheduler rs h d))) = cscan_order h d rs"
    by (simp add: cscan_sequence calculate_metrics_fst)
  ultimately show ?thesis
    using r l c by simp
qed

theorem scan_cscan_within_disk_witness:
  "list_all (\<lambda>x. 0 \<le> x \<and> x < 200)
     (seek_sequence (fst (scan (DiskScheduler [98, 183, 37, 0, 199] 50 200) ''left'')))
   \<and> list_all (\<lambda>x. 0 \<le> x \<and> x < 200)
     (seek_sequence (fst (cscan (DiskScheduler [98, 183, 37, 0, 199] 50 200))))"
proof -
  have h0: "(0 :: int) \<le> 50" and hd: "(50 :: int) < 200"
    by simp_all
  have rs: "\<forall>r\<in>set [98, 183, 37, 0, 199 :: int]. 0 \<le> r \<and> r < 200"
    by simp
  show ?thesis
    unfolding list_all_iff by (rule scan_cscan_within_disk [OF h0 hd rs])
qed

text \<open>
  C9. For every scheduler and every direction string other than \<open>right\<close>, SCAN does
  what it does for \<open>left\<close>: it leaves the same object with the same sequence, and has
  the same outcome with the same metrics.
\<close>

theorem scan_other_direction_as_left:
  "direction \<noteq> ''right'' \<Longrightarrow> scan s direction = scan s ''left''"
  by (simp add: scan_def)

theorem scan_other_direction_as_left_witness:
  "''up'' \<noteq> ''right''
   \<and> scan (DiskScheduler [98, 183, 37, 122, 14, 124, 65, 67] 50 200) ''up''
     = scan (DiskScheduler [98, 183, 37, 122, 14, 124, 65, 67] 50 200) ''left''"
proof -
  have ne: "''up'' \<noteq> ''right''"
    by simp
  show ?thesis
    using ne scan_other_direction_as_left [OF ne] by blast
qed

text \<open>
  C10. On a scheduler built with an empty request list every policy returns, with no
  \<^verbatim>\<open>ZeroDivisionError\<close> and no other exception: average 0 and throughput 0, and the
  sequence is the head alone for FCFS, SSTF and SCAN, and the head followed by the
  boundary visit 0 for C-SCAN.
\<close>

theorem empty_requests_return:
  "fcfs (DiskScheduler [] h d)
     = (\<lparr>requests = [], head = h, disk_size = d, seek_sequence = [h], total_seek = 0\<rparr>,
        Inr (0, 0, 0))
   \<and> sstf (DiskScheduler [] h d)
     = (\<lparr>requests = [], head = h, disk_size = d, seek_sequence = [h], total_seek = 0\<rparr>,
        Inr (0, 0, 0))
   \<and> scan (DiskScheduler [] h d) direction
     = (\<lparr>requests = [], head = h, disk_size = d, seek_sequence = [h], total_seek = 0\<rparr>,
        Inr (0, 0, 0))
   \<and> cscan (DiskScheduler [] h d)
     = (\<lparr>requests = [], head = h, disk_size = d, seek_sequence = [h, 0], total_seek = \<bar>h\<bar>\<rparr>,
        Inr (\<bar>h\<bar>, 0, 0))"
proof -
  have z: "truediv 0 (\<bar>h\<bar> + 1) = Inr 0"
    by (rule truediv_zero) simp
  show ?thesis
    by (simp add: fcfs_def sstf_def scan_def cscan_def calculate_metrics_def DiskScheduler_def
        sstf_loop_Nil z Let_def)
qed

theorem empty_requests_return_witness:
  "fcfs (DiskScheduler [] 7 10)
     = (\<lparr>requests = [], head = 7, disk_size = 10, seek_sequence = [7], total_seek = 0\<rparr>,
        Inr (0, 0, 0))
   \<and> sstf (DiskScheduler [] 7 10)
     = (\<lparr>requests = [], head = 7, disk_size = 10, seek_sequence = [7], total_seek = 0\<rparr>,
        Inr (0, 0, 0))
   \<and> scan (DiskScheduler [] 7 10) ''right''
     = (\<lparr>requests = [], head = 7, disk_size = 10, seek_sequence = [7], total_seek = 0\<rparr>,
        Inr (0, 0, 0))
   \<and> cscan (DiskScheduler [] 7 10)
     = (\<lparr>requests = [], head = 7, disk_size = 10, seek_sequence = [7, 0], total_seek = 7\<rparr>,
        Inr (7, 0, 0))"
  using empty_requests_return [of 7 10 "''right''"] by simp

end
